theory Spec2Isabelle
  imports Main "HOL-Library.Word" "HOL-Library.Char_ord" "HOL-Library.List_Lexorder"
begin

section \<open>Value model: \<open>ValueType\<close> and \<open>Details\<close>\<close>

text \<open>
  \<open>ValueType\<close> is \<open>std::variant<std::string, double, Details>\<close>. A \<open>std::string\<close> is a
  byte sequence (\<open>string\<close>). The type of doubles is the parameter \<open>'d\<close>; the text that
  \<open>out << arg\<close> writes for a double comes from the standard library and is the
  parameter \<open>sd\<close> of the serialisation functions below.

  \<open>Details\<close> derives from \<open>std::map<std::string, ValueType>\<close>. A map is represented by
  the list of its entries in iteration order, which for \<open>std::map\<close> is ascending key
  order under \<open>std::less<std::string>\<close>: lexicographic comparison of the bytes as
  unsigned values, which is the order \<open><\<close> on \<open>string\<close> here.
\<close>

datatype 'd ValueType =
    VString string
  | VDouble 'd
  | VDetails "(string \<times> 'd ValueType) list"

type_synonym 'd Details = "(string \<times> 'd ValueType) list"

text \<open>
  \<open>std::map::insert\<close> of one pair: the pair is placed at its position in key order; when
  an entry with an equivalent key is already present the map is left as it is.
\<close>

fun map_insert :: "string \<times> 'v \<Rightarrow> (string \<times> 'v) list \<Rightarrow> (string \<times> 'v) list" where
  "map_insert (k, v) [] = [(k, v)]"
| "map_insert (k, v) ((k', v') # m) =
     (if k < k' then (k, v) # (k', v') # m
      else if k' < k then (k', v') # map_insert (k, v) m
      else (k', v') # m)"

text \<open>
  \<open>Details(std::initializer_list<...> args) : std::map<...>(args)\<close>: the range
  constructor of \<open>std::map\<close> starts from the empty map and inserts the elements of
  \<open>args\<close> from first to last.
\<close>

definition Details :: "(string \<times> 'd ValueType) list \<Rightarrow> 'd Details" where
  "Details args = foldl (\<lambda>m kv. map_insert kv m) [] args"

text \<open>
  \<open>out << std::quoted(s)\<close> with the default delimiter, the double quote (0x22), and
  the default escape character, the backslash (0x5C): the delimiter, then every
  character of \<open>s\<close>, preceded by the escape character when it equals the delimiter or
  the escape character, then the delimiter.
\<close>

definition quoted_char :: "char \<Rightarrow> string" where
  "quoted_char c = (if c = CHR 0x22 \<or> c = CHR 0x5C then [CHR 0x5C, c] else [c])"

definition quoted :: "string \<Rightarrow> string" where
  "quoted s = CHR 0x22 # concat (map quoted_char s) @ [CHR 0x22]"

text \<open>
  The two mutually recursive \<open>operator<<\<close>: \<open>show_value\<close> for a \<open>ValueType\<close>
  (the \<open>std::visit\<close>), \<open>show_details\<close> for a \<open>Details\<close>, whose range-for loop with the
  flag \<open>first\<close> is \<open>details_loop\<close>.
\<close>

fun show_value :: "('d \<Rightarrow> string) \<Rightarrow> 'd ValueType \<Rightarrow> string"
  and show_details :: "('d \<Rightarrow> string) \<Rightarrow> 'd Details \<Rightarrow> string"
  and details_loop :: "('d \<Rightarrow> string) \<Rightarrow> bool \<Rightarrow> (string \<times> 'd ValueType) list \<Rightarrow> string"
where
  "show_value sd (VString s) = quoted s"
| "show_value sd (VDouble d) = sd d"
| "show_value sd (VDetails m) = show_details sd m"
| "show_details sd details = ''{ '' @ details_loop sd True details @ '' }''"
| "details_loop sd first [] = []"
| "details_loop sd first ((key, val) # m) =
     (if \<not> first then '', '' else []) @ quoted key @ '': '' @ show_value sd val
       @ details_loop sd False m"

section \<open>Assertions\<close>

text \<open>
  \<open>AssertionState\<close>: three one-bit fields, written only with \<open>true\<close> and \<open>false\<close> and
  read only as conditions, so each is a \<open>bool\<close>; \<open>rest\<close> is the five-bit padding field.
\<close>

record AssertionState =
  not_reached :: bool
  false_not_seen :: bool
  true_not_seen :: bool
  rest :: "5 word"

definition AssertionState_init :: AssertionState where
  "AssertionState_init =
     \<lparr>not_reached = True, false_not_seen = True, true_not_seen = True, rest = 0\<rparr>"

text \<open>
  \<open>const char*\<close> fields hold a \<open>string\<close>; whoever reads one as a C string (\<open>printf\<close> with
  \<open>%s\<close>, the \<open>std::string\<close> constructor, \<open>operator+\<close>) reads up to the first NUL, which is
  \<open>c_str\<close>. The field \<open>id\<close> is named \<open>id_str\<close> here; \<open>line\<close> is an \<open>int\<close>.
\<close>

definition c_str :: "string \<Rightarrow> string" where
  "c_str s = takeWhile (\<lambda>c. c \<noteq> CHR 0x00) s"

record Assertion =
  state :: AssertionState
  message :: string
  function_name :: string
  file_name :: string
  line :: "32 word"
  id_str :: string

text \<open>
  Standard output is the list of the \<open>printf\<close> calls made, one \<open>Emission\<close> per call with
  the arguments passed, in the order of the call's argument list; \<open>render\<close> is the text
  the call writes.
\<close>

datatype Emission =
    CatalogRecord string string "32 word" string string
  | ReachedRecord string
  | FirstFalseRecord string string
  | FirstTrueRecord string string
  | DetailsLine string

text \<open>\<open>printf\<close> with \<open>%d\<close>: the decimal digits of an \<open>int\<close>, with a minus sign when negative.\<close>

definition digit_char :: "nat \<Rightarrow> char" where
  "digit_char n = ''0123456789'' ! (n mod 10)"

fun show_nat :: "nat \<Rightarrow> string" where
  "show_nat n =
     (if n < 10 then [digit_char n] else show_nat (n div 10) @ [digit_char (n mod 10)])"

declare show_nat.simps [simp del]

definition show_int :: "int \<Rightarrow> string" where
  "show_int i = (if i < 0 then CHR ''-'' # show_nat (nat (- i)) else show_nat (nat i))"

fun render :: "Emission \<Rightarrow> string" where
  "render (CatalogRecord i file ln fn msg) =
     ''There is an assertion with ID `'' @ c_str i @ ''` at '' @ c_str file @ '':''
       @ show_int (sint ln) @ '' in `'' @ c_str fn @ ''` with message: `'' @ c_str msg
       @ [CHR 0x60, CHR 0x0A]"
| "render (ReachedRecord i) =
     ''The assertion with ID `'' @ c_str i @ ''` was reached'' @ [CHR 0x0A]"
| "render (FirstFalseRecord i msg) =
     ''The assertion with ID `'' @ c_str i @ ''` saw its first false: '' @ c_str msg
       @ [CHR 0x0A]"
| "render (FirstTrueRecord i msg) =
     ''The assertion with ID `'' @ c_str i @ ''` saw its first true: '' @ c_str msg
       @ [CHR 0x0A]"
| "render (DetailsLine s) = ''Details: '' @ c_str s @ [CHR 0x0A]"

definition add_to_catalog :: "Assertion \<Rightarrow> Emission list" where
  "add_to_catalog a =
     [CatalogRecord (id_str a) (file_name a) (line a) (function_name a) (message a)]"

text \<open>
  The constructor: the member initialisers, then the body, which calls
  \<open>add_to_catalog\<close>. It returns the object and what was printed.
\<close>

definition Assertion_ctor ::
  "string \<Rightarrow> string \<Rightarrow> string \<Rightarrow> 32 word \<Rightarrow> Assertion \<times> Emission list" where
  "Assertion_ctor msg fn file ln =
     (let a = \<lparr>state = AssertionState_init, message = msg, function_name = fn,
                file_name = file, line = ln, id_str = c_str msg @ '' in '' @ c_str fn\<rparr>
      in (a, add_to_catalog a))"

definition print_details :: "('d \<Rightarrow> string) \<Rightarrow> 'd Details \<Rightarrow> Emission list" where
  "print_details sd d = [DetailsLine (show_details sd d)]"

text \<open>
  \<open>check_assertion_internal\<close>: the three \<open>if\<close> statements in sequence, each reading the
  state the previous one left.
\<close>

definition check_assertion_internal ::
  "('d \<Rightarrow> string) \<Rightarrow> bool \<Rightarrow> 'd Details \<Rightarrow> Assertion \<Rightarrow> Assertion \<times> Emission list" where
  "check_assertion_internal sd cond details a =
     (let (a1, out1) =
            (if not_reached (state a)
             then (a\<lparr>state := (state a)\<lparr>not_reached := False\<rparr>\<rparr>,
                   ReachedRecord (id_str a) # print_details sd details)
             else (a, []));
          (a2, out2) =
            (if \<not> cond \<and> false_not_seen (state a1)
             then (a1\<lparr>state := (state a1)\<lparr>false_not_seen := False\<rparr>\<rparr>,
                   FirstFalseRecord (id_str a1) (message a1) # print_details sd details)
             else (a1, []));
          (a3, out3) =
            (if cond \<and> true_not_seen (state a2)
             then (a2\<lparr>state := (state a2)\<lparr>true_not_seen := False\<rparr>\<rparr>,
                   FirstTrueRecord (id_str a2) (message a2) # print_details sd details)
             else (a2, []))
      in (a3, out1 @ out2 @ out3))"

definition check_assertion ::
  "('d \<Rightarrow> string) \<Rightarrow> bool \<Rightarrow> 'd Details \<Rightarrow> Assertion \<Rightarrow> Assertion \<times> Emission list" where
  "check_assertion sd cond details a =
     (if not_reached (state a) \<or> false_not_seen (state a) \<or> true_not_seen (state a)
      then check_assertion_internal sd cond details a
      else (a, []))"

text \<open>
  \<open>CatalogEntry<message, file_name, function_name, line>\<close>: \<open>create\<close> builds the
  \<open>Assertion\<close> from the \<open>c_str()\<close> of the template arguments; the static member
  \<open>assertion\<close> is initialised once with it.
\<close>

definition CatalogEntry_create ::
  "string \<Rightarrow> string \<Rightarrow> string \<Rightarrow> 32 word \<Rightarrow> Assertion \<times> Emission list" where
  "CatalogEntry_create msg file fn ln = Assertion_ctor (c_str msg) (c_str fn) (c_str file) ln"

text \<open>
  \<open>ANTITHESIS_ASSERT_RAW(cond, message, ...)\<close> at a site whose \<open>assertion\<close> is \<open>a\<close>:
  \<open>assertion.check_assertion(cond, Details(__VA_ARGS__))\<close>.
\<close>

definition ANTITHESIS_ASSERT_RAW ::
  "('d \<Rightarrow> string) \<Rightarrow> bool \<Rightarrow> (string \<times> 'd ValueType) list \<Rightarrow> Assertion
     \<Rightarrow> Assertion \<times> Emission list" where
  "ANTITHESIS_ASSERT_RAW sd cond args a = check_assertion sd cond (Details args) a"

text \<open>
  The calls of \<open>check_assertion\<close> made on one \<open>Assertion\<close> object, in order, each given
  as its condition and its details.
\<close>

fun check_all ::
  "('d \<Rightarrow> string) \<Rightarrow> (bool \<times> 'd Details) list \<Rightarrow> Assertion \<Rightarrow> Assertion \<times> Emission list" where
  "check_all sd [] a = (a, [])"
| "check_all sd ((cond, details) # cs) a =
     (let (a1, out1) = check_assertion sd cond details a;
          (a2, out2) = check_all sd cs a1
      in (a2, out1 @ out2))"

text \<open>
  \<open>CatalogEntry\<close> is declared in an unnamed namespace: every translation unit that uses
  \<open>CatalogEntry<message, file_name, function_name, line>\<close> has a specialisation of its
  own, with its own static member \<open>assertion\<close>, and the start of the program initialises
  each of these members once, with \<open>create()\<close>. \<open>static_initialization\<close> takes the
  specialisations of a program, one element for each translation unit and template
  argument list, in the order in which their initialisations happen to run, and gives
  what they print.
\<close>

definition static_initialization :: "(string \<times> string \<times> string \<times> 32 word) list \<Rightarrow> Emission list" where
  "static_initialization specs =
     concat (map (\<lambda>(msg, file, fn, ln). snd (CatalogEntry_create msg file fn ln)) specs)"

section \<open>Notions used to state the properties\<close>

text \<open>The \<open>printf\<close> call an emission comes from.\<close>

fun is_catalog :: "Emission \<Rightarrow> bool" where
  "is_catalog (CatalogRecord i file ln fn msg) = True"
| "is_catalog e = False"

fun is_reached :: "Emission \<Rightarrow> bool" where
  "is_reached (ReachedRecord i) = True"
| "is_reached e = False"

fun is_first_false :: "Emission \<Rightarrow> bool" where
  "is_first_false (FirstFalseRecord i msg) = True"
| "is_first_false e = False"

fun is_first_true :: "Emission \<Rightarrow> bool" where
  "is_first_true (FirstTrueRecord i msg) = True"
| "is_first_true e = False"

text \<open>
  The text of a list of map entries written one after the other: each entry as its
  quoted key, a colon and a space, and its value; a comma and a space between two
  entries.
\<close>

definition entry_text :: "('d \<Rightarrow> string) \<Rightarrow> string \<times> 'd ValueType \<Rightarrow> string" where
  "entry_text sd e = quoted (fst e) @ '': '' @ show_value sd (snd e)"

fun comma_join :: "string list \<Rightarrow> string" where
  "comma_join [] = []"
| "comma_join [t] = t"
| "comma_join (t # u # ts) = t @ '', '' @ comma_join (u # ts)"

text \<open>
  The catalog line as the specification words it, with the ID, the function and the
  message between double quotes (0x22).
\<close>

definition spec_catalog_record :: "string \<Rightarrow> string \<Rightarrow> int \<Rightarrow> string \<Rightarrow> string \<Rightarrow> string" where
  "spec_catalog_record i file ln fn msg =
     ''There is an assertion with ID '' @ [CHR 0x22] @ i @ [CHR 0x22] @ '' at '' @ file @ '':''
       @ show_int ln @ '' in '' @ [CHR 0x22] @ fn @ [CHR 0x22] @ '' with message: ''
       @ [CHR 0x22] @ msg @ [CHR 0x22]"

text \<open>
  Reading quoted text back: \<open>unquote\<close> expects the delimiter, then takes characters up to
  the first delimiter that no escape character precedes, an escape character standing
  for the character after it; it returns the string read and the text left over.
  \<open>raw_in c t\<close> holds when \<open>c\<close> occurs in \<open>t\<close> at a place where no escape character
  covers it. \<open>control_char\<close> are the ASCII control characters.
\<close>

fun unquote_body :: "string \<Rightarrow> (string \<times> string) option" where
  "unquote_body [] = None"
| "unquote_body (c # cs) =
     (if c = CHR 0x22 then Some ([], cs)
      else if c = CHR 0x5C
      then (case cs of [] \<Rightarrow> None
            | d # ds \<Rightarrow> map_option (\<lambda>(s, r). (d # s, r)) (unquote_body ds))
      else map_option (\<lambda>(s, r). (c # s, r)) (unquote_body cs))"

definition unquote :: "string \<Rightarrow> (string \<times> string) option" where
  "unquote t =
     (case t of [] \<Rightarrow> None | c # cs \<Rightarrow> if c = CHR 0x22 then unquote_body cs else None)"

fun raw_in :: "char \<Rightarrow> string \<Rightarrow> bool" where
  "raw_in c [] = False"
| "raw_in c (x # t) =
     (if x = CHR 0x5C then (case t of [] \<Rightarrow> False | y # u \<Rightarrow> raw_in c u)
      else x = c \<or> raw_in c t)"

definition control_char :: "char \<Rightarrow> bool" where
  "control_char c = (of_char c < (32 :: nat) \<or> of_char c = (127 :: nat))"

section \<open>The checks of one invocation\<close>

lemma check_assertion_eq:
  "check_assertion sd cond details a =
     (a\<lparr>state := (state a)\<lparr>not_reached := False,
                             false_not_seen := false_not_seen (state a) \<and> cond,
                             true_not_seen := true_not_seen (state a) \<and> \<not> cond\<rparr>\<rparr>,
      (if not_reached (state a)
       then [ReachedRecord (id_str a), DetailsLine (show_details sd details)] else [])
      @ (if \<not> cond \<and> false_not_seen (state a)
         then [FirstFalseRecord (id_str a) (message a), DetailsLine (show_details sd details)]
         else [])
      @ (if cond \<and> true_not_seen (state a)
         then [FirstTrueRecord (id_str a) (message a), DetailsLine (show_details sd details)]
         else []))"
  by (cases a, cases "state a")
     (auto simp: check_assertion_def check_assertion_internal_def print_details_def)

lemma c_str_idem [simp]: "c_str (c_str s) = c_str s"
  by (simp add: c_str_def)

lemma nul_notin_c_str [simp]: "CHR 0x00 \<notin> set (c_str s)"
  by (auto simp: c_str_def dest: set_takeWhileD)

lemma c_str_nul_free: "CHR 0x00 \<notin> set s \<Longrightarrow> c_str s = s"
  unfolding c_str_def by (rule takeWhile_eq_all_conv [THEN iffD2]) metis

text \<open>
  C1. One invocation of \<open>check_assertion\<close> applies the three one-shot checks independently
  of one another, each on the flags as they were when the call began: with the
  not-reached flag set it emits the reached record and the details and clears the flag;
  with a false condition and the false-not-seen flag set it emits the first-false record
  and the details and clears that flag; with a true condition and the true-not-seen flag
  set it emits the first-true record and the details and clears that flag; nothing else
  of the \<open>Assertion\<close> changes. Hence the first call on a new \<open>Assertion\<close>, with a true
  condition, emits the reached and the first-true records, and at the site with message
  \<open>x>0\<close> the calls \<open>check(true, {"x": 5.0})\<close>, \<open>check(false, {"x": -1.0})\<close>,
  \<open>check(false, {})\<close> emit reached and first-true, then first-false only, then nothing.
\<close>

theorem check_assertion_independent_checks:
  "check_assertion sd cond details a =
     (a\<lparr>state := (state a)\<lparr>not_reached := False,
                             false_not_seen := false_not_seen (state a) \<and> cond,
                             true_not_seen := true_not_seen (state a) \<and> \<not> cond\<rparr>\<rparr>,
      (if not_reached (state a)
       then [ReachedRecord (id_str a), DetailsLine (show_details sd details)] else [])
      @ (if \<not> cond \<and> false_not_seen (state a)
         then [FirstFalseRecord (id_str a) (message a), DetailsLine (show_details sd details)]
         else [])
      @ (if cond \<and> true_not_seen (state a)
         then [FirstTrueRecord (id_str a) (message a), DetailsLine (show_details sd details)]
         else []))
   \<and> snd (check_assertion sd True details (fst (Assertion_ctor msg fn path ln)))
       = [ReachedRecord (c_str msg @ '' in '' @ c_str fn),
          DetailsLine (show_details sd details),
          FirstTrueRecord (c_str msg @ '' in '' @ c_str fn) msg,
          DetailsLine (show_details sd details)]
   \<and> (let a0 = fst (CatalogEntry_create ''x>0'' path fn ln);
           (a1, out1) = ANTITHESIS_ASSERT_RAW sd True [(''x'', VDouble five)] a0;
           (a2, out2) = ANTITHESIS_ASSERT_RAW sd False [(''x'', VDouble minus_one)] a1;
           (a3, out3) = ANTITHESIS_ASSERT_RAW sd False [] a2
       in out1 = [ReachedRecord (''x>0 in '' @ c_str fn),
                  DetailsLine (''{ '' @ [CHR 0x22] @ ''x'' @ [CHR 0x22] @ '': '' @ sd five @ '' }''),
                  FirstTrueRecord (''x>0 in '' @ c_str fn) ''x>0'',
                  DetailsLine (''{ '' @ [CHR 0x22] @ ''x'' @ [CHR 0x22] @ '': '' @ sd five @ '' }'')]
        \<and> out2 = [FirstFalseRecord (''x>0 in '' @ c_str fn) ''x>0'',
                  DetailsLine
                    (''{ '' @ [CHR 0x22] @ ''x'' @ [CHR 0x22] @ '': '' @ sd minus_one @ '' }'')]
        \<and> out3 = [])"
proof (intro conjI)
  show "snd (check_assertion sd True details (fst (Assertion_ctor msg fn path ln)))
       = [ReachedRecord (c_str msg @ '' in '' @ c_str fn),
          DetailsLine (show_details sd details),
          FirstTrueRecord (c_str msg @ '' in '' @ c_str fn) msg,
          DetailsLine (show_details sd details)]"
    by (simp add: check_assertion_eq Assertion_ctor_def AssertionState_init_def Let_def
          del: show_details.simps)
  have x: "c_str ''x>0'' = ''x>0''"
    by (simp add: c_str_def)
  show "let a0 = fst (CatalogEntry_create ''x>0'' path fn ln);
           (a1, out1) = ANTITHESIS_ASSERT_RAW sd True [(''x'', VDouble five)] a0;
           (a2, out2) = ANTITHESIS_ASSERT_RAW sd False [(''x'', VDouble minus_one)] a1;
           (a3, out3) = ANTITHESIS_ASSERT_RAW sd False [] a2
       in out1 = [ReachedRecord (''x>0 in '' @ c_str fn),
                  DetailsLine (''{ '' @ [CHR 0x22] @ ''x'' @ [CHR 0x22] @ '': '' @ sd five @ '' }''),
                  FirstTrueRecord (''x>0 in '' @ c_str fn) ''x>0'',
                  DetailsLine (''{ '' @ [CHR 0x22] @ ''x'' @ [CHR 0x22] @ '': '' @ sd five @ '' }'')]
        \<and> out2 = [FirstFalseRecord (''x>0 in '' @ c_str fn) ''x>0'',
                  DetailsLine
                    (''{ '' @ [CHR 0x22] @ ''x'' @ [CHR 0x22] @ '': '' @ sd minus_one @ '' }'')]
        \<and> out3 = []"
    by (simp add: ANTITHESIS_ASSERT_RAW_def check_assertion_eq CatalogEntry_create_def
          Assertion_ctor_def AssertionState_init_def Details_def x Let_def quoted_def
          quoted_char_def)
qed (rule check_assertion_eq)

text \<open>
  The scenario at a site in \<open>main\<close>, line 7 of \<open>a.cpp\<close>; the doubles 5.0 and -1.0 are
  written by \<open>operator<<\<close> as \<open>5\<close> and \<open>-1\<close>.
\<close>

theorem check_assertion_independent_checks_witness:
  "(let a0 = fst (CatalogEntry_create ''x>0'' ''a.cpp'' ''main'' 7);
        (a1, out1) = ANTITHESIS_ASSERT_RAW show_int True [(''x'', VDouble 5)] a0;
        (a2, out2) = ANTITHESIS_ASSERT_RAW show_int False [(''x'', VDouble (- 1))] a1;
        (a3, out3) = ANTITHESIS_ASSERT_RAW show_int False [] a2
    in out1 = [ReachedRecord ''x>0 in main'',
               DetailsLine (''{ '' @ [CHR 0x22] @ ''x'' @ [CHR 0x22] @ '': 5 }''),
               FirstTrueRecord ''x>0 in main'' ''x>0'',
               DetailsLine (''{ '' @ [CHR 0x22] @ ''x'' @ [CHR 0x22] @ '': 5 }'')]
     \<and> out2 = [FirstFalseRecord ''x>0 in main'' ''x>0'',
               DetailsLine (''{ '' @ [CHR 0x22] @ ''x'' @ [CHR 0x22] @ '': -1 }'')]
     \<and> out3 = [])"
proof -
  have m: "c_str ''main'' = ''main''"
    by (simp add: c_str_def)
  have d: "show_int 5 = ''5''" "show_int (- 1) = ''-1''"
    by (simp_all add: show_int_def show_nat.simps digit_char_def)
  from check_assertion_independent_checks
         [where sd = show_int and path = "''a.cpp''" and fn = "''main''" and ln = 7
            and five = 5 and minus_one = "- 1", THEN conjunct2, THEN conjunct2]
  show ?thesis
    by (simp only: m d append.simps)
qed

section \<open>Sequences of invocations\<close>

lemma check_all_keeps_cleared:
  "(\<not> not_reached (state a) \<longrightarrow> \<not> not_reached (state (fst (check_all sd cs a))))
   \<and> (\<not> false_not_seen (state a) \<longrightarrow> \<not> false_not_seen (state (fst (check_all sd cs a))))
   \<and> (\<not> true_not_seen (state a) \<longrightarrow> \<not> true_not_seen (state (fst (check_all sd cs a))))"
proof (induction cs arbitrary: a)
  case Nil
  show ?case by simp
next
  case (Cons c cs)
  obtain cond details where c: "c = (cond, details)" by (cases c)
  show ?case
    using Cons.IH [of "fst (check_assertion sd cond details a)"]
    by (auto simp: c split_beta check_assertion_eq)
qed

lemma check_all_no_reached:
  "\<not> not_reached (state a) \<Longrightarrow> filter is_reached (snd (check_all sd cs a)) = []"
proof (induction cs arbitrary: a)
  case Nil
  show ?case by simp
next
  case (Cons c cs)
  obtain cond details where c: "c = (cond, details)" by (cases c)
  have "\<not> not_reached (state (fst (check_assertion sd cond details a)))"
    by (simp add: check_assertion_eq)
  from Cons.IH [OF this] Cons.prems show ?case
    by (simp add: c split_beta check_assertion_eq)
qed

lemma check_all_no_first_false:
  "\<not> false_not_seen (state a) \<Longrightarrow> filter is_first_false (snd (check_all sd cs a)) = []"
proof (induction cs arbitrary: a)
  case Nil
  show ?case by simp
next
  case (Cons c cs)
  obtain cond details where c: "c = (cond, details)" by (cases c)
  have "\<not> false_not_seen (state (fst (check_assertion sd cond details a)))"
    using Cons.prems by (simp add: check_assertion_eq)
  from Cons.IH [OF this] Cons.prems show ?case
    by (simp add: c split_beta check_assertion_eq)
qed

lemma check_all_no_first_true:
  "\<not> true_not_seen (state a) \<Longrightarrow> filter is_first_true (snd (check_all sd cs a)) = []"
proof (induction cs arbitrary: a)
  case Nil
  show ?case by simp
next
  case (Cons c cs)
  obtain cond details where c: "c = (cond, details)" by (cases c)
  have "\<not> true_not_seen (state (fst (check_assertion sd cond details a)))"
    using Cons.prems by (simp add: check_assertion_eq)
  from Cons.IH [OF this] Cons.prems show ?case
    by (simp add: c split_beta check_assertion_eq)
qed

lemma check_all_no_catalog: "filter is_catalog (snd (check_all sd cs a)) = []"
proof (induction cs arbitrary: a)
  case Nil
  show ?case by simp
next
  case (Cons c cs)
  obtain cond details where c: "c = (cond, details)" by (cases c)
  from Cons.IH show ?case
    by (simp add: c split_beta check_assertion_eq)
qed

lemma check_all_covered:
  "\<not> not_reached (state a) \<Longrightarrow> \<not> false_not_seen (state a) \<Longrightarrow> \<not> true_not_seen (state a)
   \<Longrightarrow> check_all sd cs a = (a, [])"
  by (induction cs) (auto simp: check_assertion_def)

text \<open>The state of the site \<open>x>0\<close> after one true and one false check: all flags cleared.\<close>

lemma covered_site:
  "state (fst (check_all show_int [(True, []), (False, [])]
                 (fst (Assertion_ctor ''x>0'' ''main'' ''a.cpp'' 7))))
     = \<lparr>not_reached = False, false_not_seen = False, true_not_seen = False, rest = 0\<rparr>"
  by (simp add: check_assertion_eq Assertion_ctor_def AssertionState_init_def Let_def)

text \<open>
  C2. The three flags of an \<open>AssertionState\<close> are initialised to true, in the state itself
  and in every constructed \<open>Assertion\<close>. Over every sequence of \<open>check_assertion\<close>
  invocations a flag that is false stays false, so a flag only ever goes from true to
  false; and from the moment a flag is false no invocation emits a record of its
  category: no reached record once not-reached is false, no first-false record once
  false-not-seen is false, no first-true record once true-not-seen is false.
\<close>

theorem flags_one_shot:
  "not_reached AssertionState_init \<and> false_not_seen AssertionState_init
   \<and> true_not_seen AssertionState_init
   \<and> state (fst (Assertion_ctor msg fn path ln)) = AssertionState_init
   \<and> (\<not> not_reached (state a) \<longrightarrow>
        \<not> not_reached (state (fst (check_all sd cs a)))
        \<and> filter is_reached (snd (check_all sd cs a)) = [])
   \<and> (\<not> false_not_seen (state a) \<longrightarrow>
        \<not> false_not_seen (state (fst (check_all sd cs a)))
        \<and> filter is_first_false (snd (check_all sd cs a)) = [])
   \<and> (\<not> true_not_seen (state a) \<longrightarrow>
        \<not> true_not_seen (state (fst (check_all sd cs a)))
        \<and> filter is_first_true (snd (check_all sd cs a)) = [])"
proof (intro conjI impI)
  show "state (fst (Assertion_ctor msg fn path ln)) = AssertionState_init"
    by (simp add: Assertion_ctor_def Let_def)
next
  assume "\<not> not_reached (state a)"
  then show "\<not> not_reached (state (fst (check_all sd cs a)))"
    using check_all_keeps_cleared [of a sd cs] by simp
next
  assume "\<not> false_not_seen (state a)"
  then show "\<not> false_not_seen (state (fst (check_all sd cs a)))"
    using check_all_keeps_cleared [of a sd cs] by simp
next
  assume "\<not> true_not_seen (state a)"
  then show "\<not> true_not_seen (state (fst (check_all sd cs a)))"
    using check_all_keeps_cleared [of a sd cs] by simp
qed (simp_all add: AssertionState_init_def check_all_no_reached check_all_no_first_false
       check_all_no_first_true)

text \<open>
  At the site \<open>x>0\<close>, after a true and a false check all three flags are false; a further
  false and a further true check leave them false and emit no record.
\<close>

theorem flags_one_shot_witness:
  "(let a = fst (check_all show_int [(True, []), (False, [])]
                   (fst (Assertion_ctor ''x>0'' ''main'' ''a.cpp'' 7)));
        r = check_all show_int [(False, Details [(''x'', VDouble 3)]), (True, [])] a
    in \<not> not_reached (state a) \<and> \<not> false_not_seen (state a) \<and> \<not> true_not_seen (state a)
       \<and> \<not> not_reached (state (fst r)) \<and> filter is_reached (snd r) = []
       \<and> \<not> false_not_seen (state (fst r)) \<and> filter is_first_false (snd r) = []
       \<and> \<not> true_not_seen (state (fst r)) \<and> filter is_first_true (snd r) = [])"
  using covered_site
    flags_one_shot [where sd = show_int
      and a = "fst (check_all show_int [(True, []), (False, [])]
                      (fst (Assertion_ctor ''x>0'' ''main'' ''a.cpp'' 7)))"
      and cs = "[(False, Details [(''x'', VDouble 3)]), (True, [])]"]
  by (simp add: Let_def del: check_all.simps)

text \<open>
  C3, as the code has it. For every \<open>Assertion\<close> object exactly one catalog record is
  emitted: the construction of the object emits it and nothing else, and no call of
  \<open>check_assertion\<close>, in whatever state, emits one. It comes before every reached,
  first-false and first-true record of the object: checks that reach the object's
  storage before its construction find the flags zero-initialised and emit nothing, so
  the emissions of the object are its catalog record followed by those of the checks
  made after the construction. There is one object for each \<open>CatalogEntry\<close>
  specialisation, that is for each identity and each translation unit that uses it, and
  the initialisation of a program prints one catalog record for each of them.
\<close>

theorem catalog_record_once_per_object:
  "snd (CatalogEntry_create msg path fn ln)
     = [CatalogRecord (c_str msg @ '' in '' @ c_str fn) (c_str path) ln (c_str fn) (c_str msg)]
   \<and> filter is_catalog (snd (check_all sd cs a)) = []
   \<and> check_all sd early
         (z\<lparr>state := \<lparr>not_reached = False, false_not_seen = False, true_not_seen = False,
                        rest = 0\<rparr>\<rparr>)
       = (z\<lparr>state := \<lparr>not_reached = False, false_not_seen = False, true_not_seen = False,
                         rest = 0\<rparr>\<rparr>, [])
   \<and> snd (check_all sd early
             (z\<lparr>state := \<lparr>not_reached = False, false_not_seen = False,
                            true_not_seen = False, rest = 0\<rparr>\<rparr>))
         @ snd (CatalogEntry_create msg path fn ln)
         @ snd (check_all sd cs (fst (CatalogEntry_create msg path fn ln)))
       = CatalogRecord (c_str msg @ '' in '' @ c_str fn) (c_str path) ln (c_str fn) (c_str msg)
           # snd (check_all sd cs (fst (CatalogEntry_create msg path fn ln)))
   \<and> length (filter is_catalog
               (snd (check_all sd early
                       (z\<lparr>state := \<lparr>not_reached = False, false_not_seen = False,
                                      true_not_seen = False, rest = 0\<rparr>\<rparr>))
                  @ snd (CatalogEntry_create msg path fn ln)
                  @ snd (check_all sd cs (fst (CatalogEntry_create msg path fn ln))))) = 1
   \<and> filter is_catalog (static_initialization specs) = static_initialization specs
   \<and> length (static_initialization specs) = length specs"
proof -
  let ?z = "z\<lparr>state := \<lparr>not_reached = False, false_not_seen = False, true_not_seen = False,
                           rest = 0\<rparr>\<rparr>"
  have c: "snd (CatalogEntry_create msg path fn ln)
     = [CatalogRecord (c_str msg @ '' in '' @ c_str fn) (c_str path) ln (c_str fn) (c_str msg)]"
    by (simp add: CatalogEntry_create_def Assertion_ctor_def add_to_catalog_def Let_def)
  have e: "check_all sd early ?z = (?z, [])"
    by (rule check_all_covered) simp_all
  have n: "filter is_catalog (snd (check_all sd cs b)) = []" for b
    by (rule check_all_no_catalog)
  have i: "filter is_catalog (static_initialization specs) = static_initialization specs
           \<and> length (static_initialization specs) = length specs"
    by (induction specs)
       (simp_all add: static_initialization_def split_beta CatalogEntry_create_def
          Assertion_ctor_def add_to_catalog_def Let_def)
  from c e n i show ?thesis
    by simp
qed

text \<open>
  The object of the site \<open>x>0\<close> in \<open>main\<close>, line 7 of \<open>a.cpp\<close>: one check reaches it before
  its construction, three after.
\<close>

theorem catalog_record_once_per_object_witness:
  "snd (check_all show_int [(True, Details [(''x'', VDouble 5)])]
          \<lparr>state = \<lparr>not_reached = False, false_not_seen = False, true_not_seen = False,
                     rest = 0\<rparr>,
            message = [], function_name = [], file_name = [], line = 0, id_str = []\<rparr>)
     @ snd (CatalogEntry_create ''x>0'' ''a.cpp'' ''main'' 7)
     @ snd (check_all show_int
              [(True, Details [(''x'', VDouble 5)]), (False, Details [(''x'', VDouble (- 1))]),
               (False, Details [])]
              (fst (CatalogEntry_create ''x>0'' ''a.cpp'' ''main'' 7)))
   = CatalogRecord ''x>0 in main'' ''a.cpp'' 7 ''main'' ''x>0''
       # snd (check_all show_int
                [(True, Details [(''x'', VDouble 5)]), (False, Details [(''x'', VDouble (- 1))]),
                 (False, Details [])]
                (fst (CatalogEntry_create ''x>0'' ''a.cpp'' ''main'' 7)))"
proof -
  have c: "c_str ''main'' = ''main''" "c_str ''a.cpp'' = ''a.cpp''" "c_str ''x>0'' = ''x>0''"
    by (simp_all add: c_str_def)
  have z: "\<lparr>state = \<lparr>not_reached = False, false_not_seen = False, true_not_seen = False,
                      rest = 0\<rparr>,
             message = [], function_name = [], file_name = [], line = 0, id_str = []\<rparr>
           = \<lparr>state = AssertionState_init, message = [], function_name = [], file_name = [],
               line = 0, id_str = []\<rparr>
               \<lparr>state := \<lparr>not_reached = False, false_not_seen = False, true_not_seen = False,
                            rest = 0\<rparr>\<rparr>"
    by simp
  from catalog_record_once_per_object
         [where sd = show_int and msg = "''x>0''" and path = "''a.cpp''" and fn = "''main''"
            and ln = 7
            and z = "\<lparr>state = AssertionState_init, message = [], function_name = [],
                       file_name = [], line = 0, id_str = []\<rparr>"
            and early = "[(True, Details [(''x'', VDouble 5)])]"
            and cs = "[(True, Details [(''x'', VDouble 5)]),
                       (False, Details [(''x'', VDouble (- 1))]), (False, Details [])]",
          THEN conjunct2, THEN conjunct2, THEN conjunct2, THEN conjunct1]
  show ?thesis
    unfolding z by (simp only: c append.simps)
qed

text \<open>
  The claim as worded fails: a program of two translation units that both include the
  header \<open>a.h\<close>, whose static function \<open>f\<close> has the site \<open>x>0\<close> at line 7, has two
  \<open>Assertion\<close> objects for this one identity and prints its catalog record twice.
\<close>

theorem catalog_record_per_identity_counterexample:
  "filter is_catalog
     (static_initialization [(''x>0'', ''a.h'', ''f'', 7), (''x>0'', ''a.h'', ''f'', 7)])
   = [CatalogRecord ''x>0 in f'' ''a.h'' 7 ''f'' ''x>0'',
      CatalogRecord ''x>0 in f'' ''a.h'' 7 ''f'' ''x>0'']"
  by (simp add: static_initialization_def CatalogEntry_create_def Assertion_ctor_def
      add_to_catalog_def Let_def c_str_def)

text \<open>
  C4. On an \<open>Assertion\<close> whose three flags are all false, a call of \<open>check_assertion\<close>, with
  any condition and any details, emits nothing and returns the \<open>Assertion\<close> as it was,
  every field unchanged; so does every sequence of further calls.
\<close>

theorem covered_site_is_noop:
  "\<not> not_reached (state a) \<Longrightarrow> \<not> false_not_seen (state a) \<Longrightarrow> \<not> true_not_seen (state a)
   \<Longrightarrow> check_assertion sd cond details a = (a, []) \<and> check_all sd cs a = (a, [])"
  by (simp add: check_all_covered) (simp add: check_assertion_def)

theorem covered_site_is_noop_witness:
  "(let a = fst (check_all show_int [(True, []), (False, [])]
                   (fst (Assertion_ctor ''x>0'' ''main'' ''a.cpp'' 7)))
    in \<not> not_reached (state a) \<and> \<not> false_not_seen (state a) \<and> \<not> true_not_seen (state a)
       \<and> check_assertion show_int True (Details [(''x'', VDouble 5)]) a = (a, [])
       \<and> check_all show_int [(False, Details [(''x'', VDouble 3)]), (True, [])] a = (a, []))"
proof -
  let ?a = "fst (check_all show_int [(True, []), (False, [])]
                   (fst (Assertion_ctor ''x>0'' ''main'' ''a.cpp'' 7)))"
  have h: "\<not> not_reached (state ?a)" "\<not> false_not_seen (state ?a)" "\<not> true_not_seen (state ?a)"
    by (simp_all only: covered_site) simp_all
  have r: "check_assertion show_int True (Details [(''x'', VDouble 5)]) ?a = (?a, [])
           \<and> check_all show_int [(False, Details [(''x'', VDouble 3)]), (True, [])] ?a = (?a, [])"
    by (rule covered_site_is_noop [OF h])
  from h r show ?thesis
    unfolding Let_def by blast
qed

section \<open>The map built by the \<open>Details\<close> constructor\<close>

lemma keys_map_insert: "set (map fst (map_insert (k, v) m)) = insert k (set (map fst m))"
proof (induction m)
  case Nil
  show ?case by simp
next
  case (Cons e m)
  obtain k' v' where e: "e = (k', v')" by (cases e)
  show ?case
  proof (cases "k < k'")
    case True
    then show ?thesis by (simp add: e)
  next
    case False
    show ?thesis
    proof (cases "k' < k")
      case True
      with False Cons.IH show ?thesis by (simp add: e insert_commute)
    next
      case f: False
      with False have "k = k'" by simp
      with False show ?thesis by (simp add: e)
    qed
  qed
qed

lemma sorted_map_insert:
  "sorted_wrt (<) (map fst m) \<Longrightarrow> sorted_wrt (<) (map fst (map_insert (k, v) m))"
proof (induction m)
  case Nil
  show ?case by simp
next
  case (Cons e m)
  obtain k' v' where e: "e = (k', v')" by (cases e)
  from Cons.prems have s: "sorted_wrt (<) (map fst m)" and b: "\<forall>x\<in>set (map fst m). k' < x"
    by (simp_all add: e)
  show ?case
  proof (cases "k < k'")
    case True
    with s b show ?thesis by (auto simp: e)
  next
    case False
    show ?thesis
    proof (cases "k' < k")
      case True
      with False Cons.IH [OF s] b show ?thesis
        by (simp add: e keys_map_insert del: set_map)
    next
      case f: False
      with False s b show ?thesis by (simp add: e)
    qed
  qed
qed

lemma map_of_map_insert:
  "sorted_wrt (<) (map fst m) \<Longrightarrow>
   map_of (map_insert (k, v) m)
     = (if k \<in> set (map fst m) then map_of m else (map_of m)(k \<mapsto> v))"
proof (induction m)
  case Nil
  show ?case by simp
next
  case (Cons e m)
  obtain k' v' where e: "e = (k', v')" by (cases e)
  from Cons.prems have s: "sorted_wrt (<) (map fst m)" and b: "\<forall>x\<in>set (map fst m). k' < x"
    by (simp_all add: e)
  show ?case
  proof (cases "k < k'")
    case True
    with b have "k \<notin> set (map fst m)" by auto
    moreover from True have "k \<noteq> k'" by simp
    ultimately show ?thesis using True by (simp add: e del: set_map)
  next
    case False
    show ?thesis
    proof (cases "k' < k")
      case True
      with False Cons.IH [OF s] show ?thesis
        by (auto simp add: e fun_upd_twist simp del: set_map)
    next
      case f: False
      with False have "k = k'" by simp
      then show ?thesis by (simp add: e)
    qed
  qed
qed

lemma foldl_insert_sorted:
  "sorted_wrt (<) (map fst m) \<Longrightarrow>
   sorted_wrt (<) (map fst (foldl (\<lambda>m kv. map_insert kv m) m args))"
proof (induction args arbitrary: m)
  case Nil
  then show ?case by simp
next
  case (Cons kv args)
  obtain k v where kv: "kv = (k, v)" by (cases kv)
  from Cons.IH [OF sorted_map_insert [OF Cons.prems, of k v]] show ?case
    by (simp add: kv)
qed

lemma foldl_insert_keys:
  "set (map fst (foldl (\<lambda>m kv. map_insert kv m) m args))
     = set (map fst m) \<union> set (map fst args)"
proof (induction args arbitrary: m)
  case Nil
  then show ?case by simp
next
  case (Cons kv args)
  obtain k v where kv: "kv = (k, v)" by (cases kv)
  from Cons.IH [of "map_insert (k, v) m"] show ?case
    by (simp add: kv keys_map_insert del: set_map)
qed

lemma map_of_insert_append:
  assumes "sorted_wrt (<) (map fst m)"
  shows "map_of (map_insert (k, v) m @ args) = map_of (m @ (k, v) # args)"
proof (rule ext)
  fix x
  show "map_of (map_insert (k, v) m @ args) x = map_of (m @ (k, v) # args) x"
  proof (cases "k \<in> set (map fst m)")
    case True
    then obtain w where "map_of m k = Some w"
      by (metis map_of_eq_None_iff not_Some_eq set_map)
    with True show ?thesis
      by (simp add: map_of_map_insert [OF assms] map_add_def del: set_map split: option.splits)
  next
    case False
    then have "map_of m k = None" by (simp add: map_of_eq_None_iff)
    with False show ?thesis
      by (simp add: map_of_map_insert [OF assms] map_add_def del: set_map split: option.splits)
  qed
qed

lemma foldl_insert_map_of:
  "sorted_wrt (<) (map fst m) \<Longrightarrow>
   map_of (foldl (\<lambda>m kv. map_insert kv m) m args) = map_of (m @ args)"
proof (induction args arbitrary: m)
  case Nil
  show ?case by simp
next
  case (Cons kv args)
  obtain k v where kv: "kv = (k, v)" by (cases kv)
  from Cons.IH [OF sorted_map_insert [OF Cons.prems, of k v]]
    map_of_insert_append [OF Cons.prems, of k v args]
  show ?case by (simp add: kv)
qed

lemma Details_sorted: "sorted_wrt (<) (map fst (Details args))"
  unfolding Details_def by (rule foldl_insert_sorted) simp

lemma Details_keys: "set (map fst (Details args)) = set (map fst args)"
  unfolding Details_def by (simp add: foldl_insert_keys del: set_map)

lemma Details_map_of: "map_of (Details args) = map_of args"
  unfolding Details_def using foldl_insert_map_of [of "[]" args] by simp

lemma Details_distinct: "distinct (map fst (Details args))"
  using Details_sorted [of args] by (simp add: strict_sorted_iff)

lemma Details_set: "distinct (map fst args) \<Longrightarrow> set (Details args) = set args"
  using Details_map_of [of args] Details_distinct [of args]
  by (simp add: map_of_inject_set)

text \<open>Two entry lists in strictly ascending key order with the same entries are equal.\<close>

lemma sorted_entries_unique:
  fixes xs ys :: "(string \<times> 'v) list"
  assumes "sorted_wrt (<) (map fst xs)" and "sorted_wrt (<) (map fst ys)" and "set xs = set ys"
  shows "xs = ys"
proof -
  have "set (map fst xs) = set (map fst ys)" using assms(3) by simp
  with assms(1,2) have k: "map fst xs = map fst ys"
    by (metis strict_sorted_equal)
  have d: "distinct (map fst xs)" "distinct (map fst ys)"
    using assms by (simp_all add: strict_sorted_iff)
  then have m: "map_of xs = map_of ys"
    using assms(3) by (simp add: map_of_inject_set)
  have "map snd xs = map snd ys"
  proof (rule map_of_zip_inject [of _ "map fst xs"])
    show "length (map snd xs) = length (map fst xs)" by simp
    from k have "length xs = length ys" by (rule map_eq_imp_length_eq)
    then show "length (map snd ys) = length (map fst xs)" by simp
    show "distinct (map fst xs)" by (rule d)
    show "map_of (zip (map fst xs) (map snd xs)) = map_of (zip (map fst xs) (map snd ys))"
      using m by (simp add: k zip_map_fst_snd) (simp add: k [symmetric] zip_map_fst_snd)
  qed
  with k show ?thesis by (metis zip_map_fst_snd)
qed

lemma Details_sort_key:
  assumes "distinct (map fst args)"
  shows "Details args = sort_key fst args"
proof (rule sorted_entries_unique)
  show "sorted_wrt (<) (map fst (Details args))" by (rule Details_sorted)
  show "sorted_wrt (<) (map fst (sort_key fst args))"
    using assms by (simp add: strict_sorted_iff distinct_map)
  show "set (Details args) = set (sort_key fst args)"
    using assms by (simp add: Details_set)
qed

lemma Details_fixed: "(Details args = args) = sorted_wrt (<) (map fst args)"
proof
  assume "Details args = args"
  with Details_sorted [of args] show "sorted_wrt (<) (map fst args)" by simp
next
  assume s: "sorted_wrt (<) (map fst args)"
  then have "distinct (map fst args)" by (simp add: strict_sorted_iff)
  then have "set (Details args) = set args" by (rule Details_set)
  with Details_sorted s show "Details args = args" by (rule sorted_entries_unique)
qed

text \<open>What the two \<open>operator<<\<close> write, entry by entry.\<close>

lemma details_loop_join:
  "details_loop sd first m
     = (if first \<or> m = [] then [] else '', '') @ comma_join (map (entry_text sd) m)"
proof (induction m arbitrary: first)
  case Nil
  show ?case by simp
next
  case (Cons e m)
  obtain k v where e: "e = (k, v)" by (cases e)
  show ?case
  proof (cases m)
    case Nil
    then show ?thesis by (simp add: e entry_text_def)
  next
    case (Cons e' m')
    with Cons.IH [of False] show ?thesis by (simp add: e entry_text_def)
  qed
qed

lemma show_details_join:
  "show_details sd m = ''{ '' @ comma_join (map (entry_text sd) m) @ '' }''"
  by (simp add: details_loop_join)

lemma sort_key_strict:
  "distinct (map fst args) \<Longrightarrow> sorted_wrt (<) (map fst (sort_key fst args))"
  by (simp add: strict_sorted_iff distinct_map)

text \<open>
  C5, as the code has it. A \<open>Details\<close> built from pairs with pairwise-distinct keys is
  serialized with its pairs in ascending order of their keys, the iteration order of
  \<open>std::map\<close>, whatever the order they were supplied in: the text is an opening brace,
  the entries of the supplied list sorted by key, each as its quoted key, a colon and
  its value, with commas between them, and a closing brace. The map keeps the supplied
  order exactly when the keys were supplied in strictly ascending order.
\<close>

theorem details_text_in_key_order:
  "distinct (map fst args) \<Longrightarrow>
     show_details sd (Details args)
       = ''{ '' @ comma_join (map (entry_text sd) (sort_key fst args)) @ '' }''
     \<and> sorted_wrt (<) (map fst (sort_key fst args))
     \<and> set (sort_key fst args) = set args
     \<and> entry_text sd (k, VString s) = quoted k @ '': '' @ quoted s
     \<and> entry_text sd (k, VDouble d) = quoted k @ '': '' @ sd d
     \<and> entry_text sd (k, VDetails m)
         = quoted k @ '': { '' @ comma_join (map (entry_text sd) m) @ '' }''
     \<and> show_details sd (Details args) = show_details sd (sort_key fst args)
     \<and> (Details args = args) = sorted_wrt (<) (map fst args)"
  using Details_fixed [of args] sort_key_strict [of args]
  by (simp add: Details_sort_key show_details_join entry_text_def del: show_details.simps)

theorem details_text_in_key_order_witness:
  "distinct (map fst [(''b'', VDouble 1), (''a'', VDouble (2 :: int))])
   \<and> show_details show_int (Details [(''b'', VDouble 1), (''a'', VDouble 2)])
       = ''{ '' @ [CHR 0x22] @ ''a'' @ [CHR 0x22] @ '': 2, '' @ [CHR 0x22] @ ''b'' @ [CHR 0x22]
           @ '': 1 }''
   \<and> \<not> sorted_wrt (<) (map fst [(''b'', VDouble 1), (''a'', VDouble (2 :: int))])
   \<and> Details [(''b'', VDouble 1), (''a'', VDouble (2 :: int))]
       \<noteq> [(''b'', VDouble 1), (''a'', VDouble 2)]"
proof -
  let ?args = "[(''b'', VDouble 1), (''a'', VDouble (2 :: int))]"
  have h: "distinct (map fst ?args)"
    by simp
  have t: "''{ '' @ comma_join (map (entry_text show_int) (sort_key fst ?args)) @ '' }''
           = ''{ '' @ [CHR 0x22] @ ''a'' @ [CHR 0x22] @ '': 2, '' @ [CHR 0x22] @ ''b''
               @ [CHR 0x22] @ '': 1 }''"
    by (simp add: entry_text_def quoted_def quoted_char_def show_int_def show_nat.simps
        digit_char_def)
  have n: "\<not> sorted_wrt (<) (map fst ?args)"
    by simp
  note r = details_text_in_key_order [OF h, of show_int]
  from r have "show_details show_int (Details ?args)
                 = ''{ '' @ comma_join (map (entry_text show_int) (sort_key fst ?args)) @ '' }''"
    by (rule conjunct1)
  then have 1: "show_details show_int (Details ?args)
      = ''{ '' @ [CHR 0x22] @ ''a'' @ [CHR 0x22] @ '': 2, '' @ [CHR 0x22] @ ''b'' @ [CHR 0x22]
          @ '': 1 }''"
    by (simp only: t)
  from r have "(Details ?args = ?args) = sorted_wrt (<) (map fst ?args)"
    by (rule conjunct2 [OF conjunct2 [OF conjunct2 [OF conjunct2 [OF conjunct2 [OF conjunct2
         [OF conjunct2]]]]]])
  with n have 2: "Details ?args \<noteq> ?args"
    by (simp only: simp_thms)
  from h 1 n 2 show ?thesis
    by (intro conjI)
qed

text \<open>
  The claim as worded fails: \<open>{{"b", 1.0}, {"a", 2.0}}\<close> is written with \<open>a\<close> before \<open>b\<close>,
  not in the order supplied.
\<close>

theorem details_insertion_order_counterexample:
  "distinct (map fst [(''b'', VDouble 1), (''a'', VDouble (2 :: int))])
   \<and> show_details show_int (Details [(''b'', VDouble 1), (''a'', VDouble 2)])
       = ''{ '' @ [CHR 0x22] @ ''a'' @ [CHR 0x22] @ '': 2, '' @ [CHR 0x22] @ ''b'' @ [CHR 0x22]
           @ '': 1 }''
   \<and> show_details show_int (Details [(''b'', VDouble 1), (''a'', VDouble 2)])
       \<noteq> ''{ '' @ [CHR 0x22] @ ''b'' @ [CHR 0x22] @ '': 1, '' @ [CHR 0x22] @ ''a'' @ [CHR 0x22]
           @ '': 2 }''"
  by (simp add: Details_def quoted_def quoted_char_def show_int_def show_nat.simps
      digit_char_def)

text \<open>
  C6, as the code has it. A \<open>Details\<close> built from a pair list, with or without duplicate
  keys, holds each supplied key exactly once, and the value of a key is the first value
  supplied for it: the insertion of \<open>std::map\<close> leaves a key that is present untouched
  (\<open>map_of\<close> looks a key up at its first occurrence in the list).
\<close>

theorem details_first_write_wins:
  "distinct (map fst (Details args))
   \<and> set (map fst (Details args)) = set (map fst args)
   \<and> map_of (Details args) = map_of args"
  by (simp add: Details_distinct Details_keys Details_map_of del: set_map)

theorem details_first_write_wins_witness:
  "distinct (map fst (Details [(''k'', VString ''first''), (''j'', VDouble (1 :: int)),
                               (''k'', VString ''last'')]))
   \<and> set (map fst (Details [(''k'', VString ''first''), (''j'', VDouble (1 :: int)),
                             (''k'', VString ''last'')]))
       = set (map fst [(''k'', VString ''first''), (''j'', VDouble (1 :: int)),
                       (''k'', VString ''last'')])
   \<and> map_of (Details [(''k'', VString ''first''), (''j'', VDouble (1 :: int)),
                       (''k'', VString ''last'')])
       = map_of [(''k'', VString ''first''), (''j'', VDouble (1 :: int)),
                 (''k'', VString ''last'')]"
  by (rule details_first_write_wins)

text \<open>
  The claim as worded fails: with \<open>{{"k", "first"}, {"j", 1.0}, {"k", "last"}}\<close> the map
  holds \<open>first\<close> under \<open>k\<close>, not the last value supplied.
\<close>

theorem details_last_write_counterexample:
  "Details [(''k'', VString ''first''), (''j'', VDouble (1 :: int)), (''k'', VString ''last'')]
     = [(''j'', VDouble 1), (''k'', VString ''first'')]
   \<and> map_of (Details [(''k'', VString ''first''), (''j'', VDouble (1 :: int)),
                       (''k'', VString ''last'')]) ''k''
       \<noteq> Some (VString ''last'')"
  by (simp add: Details_def)

text \<open>
  C10. The serialization of a \<open>Details\<close> does not depend on the order in which its pairs
  were supplied: two construction lists with pairwise-distinct keys and the same pairs
  give the same map and the same text, and this text is an opening brace, the entries
  of the map, each as its quoted key, a colon and its value, with commas between them,
  and a closing brace, where the entries of the map are exactly the supplied pairs in
  strictly ascending lexicographic order of their keys.
\<close>

theorem details_text_order_independent:
  assumes "distinct (map fst xs)" and "distinct (map fst ys)" and "set xs = set ys"
  shows "show_details sd (Details xs) = show_details sd (Details ys)
         \<and> show_details sd (Details ys)
             = ''{ '' @ comma_join (map (entry_text sd) (Details xs)) @ '' }''
         \<and> entry_text sd (k, VString s) = quoted k @ '': '' @ quoted s
         \<and> entry_text sd (k, VDouble d) = quoted k @ '': '' @ sd d
         \<and> entry_text sd (k, VDetails m)
             = quoted k @ '': { '' @ comma_join (map (entry_text sd) m) @ '' }''
         \<and> Details xs = Details ys
         \<and> sorted_wrt (<) (map fst (Details xs)) \<and> set (Details xs) = set xs"
proof -
  have "set (Details xs) = set (Details ys)"
    using assms by (simp add: Details_set)
  with Details_sorted Details_sorted have "Details xs = Details ys"
    by (rule sorted_entries_unique)
  moreover have "set (Details xs) = set xs"
    using assms(1) by (rule Details_set)
  ultimately show ?thesis
    using Details_sorted [of xs]
    by (simp add: show_details_join entry_text_def del: show_details.simps)
qed

theorem details_text_order_independent_witness:
  "distinct (map fst [(''b'', VDouble 1), (''a'', VString ''s''), (''ab'', VDouble (2 :: int))])
   \<and> distinct (map fst [(''ab'', VDouble (2 :: int)), (''b'', VDouble 1), (''a'', VString ''s'')])
   \<and> set [(''b'', VDouble 1), (''a'', VString ''s''), (''ab'', VDouble (2 :: int))]
       = set [(''ab'', VDouble 2), (''b'', VDouble 1), (''a'', VString ''s'')]
   \<and> show_details show_int
         (Details [(''b'', VDouble 1), (''a'', VString ''s''), (''ab'', VDouble 2)])
       = show_details show_int
           (Details [(''ab'', VDouble 2), (''b'', VDouble 1), (''a'', VString ''s'')])
   \<and> show_details show_int
         (Details [(''ab'', VDouble 2), (''b'', VDouble 1), (''a'', VString ''s'')])
       = ''{ '' @ [CHR 0x22] @ ''a'' @ [CHR 0x22] @ '': '' @ [CHR 0x22] @ ''s'' @ [CHR 0x22]
           @ '', '' @ [CHR 0x22] @ ''ab'' @ [CHR 0x22] @ '': 2, '' @ [CHR 0x22] @ ''b''
           @ [CHR 0x22] @ '': 1 }''
   \<and> Details [(''b'', VDouble 1), (''a'', VString ''s''), (''ab'', VDouble (2 :: int))]
       = [(''a'', VString ''s''), (''ab'', VDouble 2), (''b'', VDouble 1)]"
proof -
  let ?xs = "[(''b'', VDouble 1), (''a'', VString ''s''), (''ab'', VDouble (2 :: int))]"
  let ?ys = "[(''ab'', VDouble 2), (''b'', VDouble 1), (''a'', VString ''s'' :: int ValueType)]"
  have h1: "distinct (map fst ?xs)" by simp
  have h2: "distinct (map fst ?ys)" by simp
  have h3: "set ?xs = set ?ys" by auto
  have v: "Details ?xs = [(''a'', VString ''s''), (''ab'', VDouble 2), (''b'', VDouble 1)]"
    by (simp add: Details_def)
  have t: "''{ '' @ comma_join (map (entry_text show_int) (Details ?xs)) @ '' }''
       = ''{ '' @ [CHR 0x22] @ ''a'' @ [CHR 0x22] @ '': '' @ [CHR 0x22] @ ''s'' @ [CHR 0x22]
           @ '', '' @ [CHR 0x22] @ ''ab'' @ [CHR 0x22] @ '': 2, '' @ [CHR 0x22] @ ''b''
           @ [CHR 0x22] @ '': 1 }''"
    unfolding v
    by (simp add: entry_text_def quoted_def quoted_char_def show_int_def show_nat.simps
        digit_char_def)
  note r = details_text_order_independent [OF h1 h2 h3, of show_int]
  from r have 1: "show_details show_int (Details ?xs) = show_details show_int (Details ?ys)"
    by (rule conjunct1)
  from r have "show_details show_int (Details ?ys)
                 = ''{ '' @ comma_join (map (entry_text show_int) (Details ?xs)) @ '' }''"
    by (rule conjunct1 [OF conjunct2])
  then have 2: "show_details show_int (Details ?ys)
       = ''{ '' @ [CHR 0x22] @ ''a'' @ [CHR 0x22] @ '': '' @ [CHR 0x22] @ ''s'' @ [CHR 0x22]
           @ '', '' @ [CHR 0x22] @ ''ab'' @ [CHR 0x22] @ '': 2, '' @ [CHR 0x22] @ ''b''
           @ [CHR 0x22] @ '': 1 }''"
    by (simp only: t)
  from h1 h2 h3 1 2 v show ?thesis
    by (intro conjI)
qed

section \<open>The text written\<close>

text \<open>
  C7, as the code has it. Every line written follows the documented templates with the
  ID, the function and the message of the catalog line delimited by backquotes (0x60)
  instead of double quotes, every \<open>%s\<close> argument written as a C string, and a newline at
  the end: the constructor writes \<open>There is an assertion with ID `<id>` at <file>:<line>
  in `<function>` with message: `<message>`\<close> with \<open><id>\<close> the message, \<open> in \<close> and the
  function; a check writes, for each of its transitions, \<open>The assertion with ID `<id>` was
  reached\<close>, \<open>The assertion with ID `<id>` saw its first false: <message>\<close> or \<open>The assertion
  with ID `<id>` saw its first true: <message>\<close>, each followed by the line
  \<open>Details: <serialized Details>\<close>.
\<close>

theorem record_formats_backquoted:
  "map render (snd (Assertion_ctor msg fn path ln))
     = [''There is an assertion with ID `'' @ c_str msg @ '' in '' @ c_str fn @ ''` at ''
          @ c_str path @ '':'' @ show_int (sint ln) @ '' in `'' @ c_str fn
          @ ''` with message: `'' @ c_str msg @ [CHR 0x60, CHR 0x0A]]
   \<and> map render (snd (check_assertion sd cond details a))
     = (if not_reached (state a)
        then [''The assertion with ID `'' @ c_str (id_str a) @ ''` was reached'' @ [CHR 0x0A],
              ''Details: '' @ c_str (show_details sd details) @ [CHR 0x0A]]
        else [])
       @ (if \<not> cond \<and> false_not_seen (state a)
          then [''The assertion with ID `'' @ c_str (id_str a) @ ''` saw its first false: ''
                  @ c_str (message a) @ [CHR 0x0A],
                ''Details: '' @ c_str (show_details sd details) @ [CHR 0x0A]]
          else [])
       @ (if cond \<and> true_not_seen (state a)
          then [''The assertion with ID `'' @ c_str (id_str a) @ ''` saw its first true: ''
                  @ c_str (message a) @ [CHR 0x0A],
                ''Details: '' @ c_str (show_details sd details) @ [CHR 0x0A]]
          else [])"
  by (simp add: Assertion_ctor_def add_to_catalog_def check_assertion_eq c_str_nul_free
        del: show_details.simps)

text \<open>The lines of the first check, with a true condition, at the site \<open>x>0\<close>.\<close>

theorem record_formats_backquoted_witness:
  "map render (snd (check_assertion show_int True (Details [(''x'', VDouble 5)])
                      (fst (Assertion_ctor ''x>0'' ''main'' ''a.cpp'' 7))))
     = [''The assertion with ID `x>0 in main` was reached'' @ [CHR 0x0A],
        ''Details: { '' @ [CHR 0x22] @ ''x'' @ [CHR 0x22] @ '': 5 }'' @ [CHR 0x0A],
        ''The assertion with ID `x>0 in main` saw its first true: x>0'' @ [CHR 0x0A],
        ''Details: { '' @ [CHR 0x22] @ ''x'' @ [CHR 0x22] @ '': 5 }'' @ [CHR 0x0A]]"
proof -
  let ?a = "fst (Assertion_ctor ''x>0'' ''main'' ''a.cpp'' 7)"
  have a: "not_reached (state ?a)" "true_not_seen (state ?a)" "id_str ?a = ''x>0 in main''"
    "message ?a = ''x>0''"
    by (simp_all add: Assertion_ctor_def AssertionState_init_def Let_def c_str_def)
  have d: "c_str (show_details show_int (Details [(''x'', VDouble 5)]))
             = ''{ '' @ [CHR 0x22] @ ''x'' @ [CHR 0x22] @ '': 5 }''"
    by (simp add: Details_def quoted_def quoted_char_def show_int_def show_nat.simps
        digit_char_def c_str_def)
  have c: "c_str ''x>0 in main'' = ''x>0 in main''" "c_str ''x>0'' = ''x>0''"
    by (simp_all add: c_str_def)
  from record_formats_backquoted
         [where sd = show_int and cond = True and details = "Details [(''x'', VDouble 5)]"
            and a = ?a, THEN conjunct2]
  show ?thesis
    by (simp only: a d c) simp
qed

text \<open>
  The claim as worded fails: the catalog line of the site \<open>x>0\<close> in \<open>main\<close>, line 7 of
  \<open>a.cpp\<close>, has backquotes where the documented format has double quotes.
\<close>

theorem record_formats_double_quote_counterexample:
  "concat (map render (snd (Assertion_ctor ''x>0'' ''main'' ''a.cpp'' 7)))
     = ''There is an assertion with ID `x>0 in main` at a.cpp:7 in `main` with message: `x>0`''
         @ [CHR 0x0A]
   \<and> concat (map render (snd (Assertion_ctor ''x>0'' ''main'' ''a.cpp'' 7)))
     \<noteq> spec_catalog_record ''x>0 in main'' ''a.cpp'' 7 ''main'' ''x>0'' @ [CHR 0x0A]"
  by (simp add: Assertion_ctor_def add_to_catalog_def c_str_def spec_catalog_record_def
      show_int_def show_nat.simps digit_char_def)

lemma unquote_body_quoted:
  "unquote_body (concat (map quoted_char s) @ CHR 0x22 # r) = Some (s, r)"
  by (induction s) (simp_all add: quoted_char_def)

lemma length_quoted:
  "length (quoted s) = length s + 2 + length (filter (\<lambda>c. c = CHR 0x22 \<or> c = CHR 0x5C) s)"
  by (induction s) (auto simp: quoted_def quoted_char_def)

lemma raw_in_body:
  "raw_in c (concat (map quoted_char s)) = (c \<in> set s \<and> c \<noteq> CHR 0x22 \<and> c \<noteq> CHR 0x5C)"
  by (induction s) (auto simp: quoted_char_def)

text \<open>
  C8, as the code has it. Every string value and every key is serialized by
  \<open>std::quoted\<close>: between two double quotes, with a backslash before every double quote
  and every backslash of the string and nothing else added, so that reading the text
  back gives the string and stops at the closing quote. A character occurs unescaped
  between the quotes exactly when it occurs in the string and is neither the double
  quote nor the backslash: control characters are written as they are.
\<close>

theorem quoted_escapes_quote_and_backslash:
  "hd (quoted s) = CHR 0x22 \<and> last (quoted s) = CHR 0x22
   \<and> unquote (quoted s @ r) = Some (s, r)
   \<and> raw_in c (butlast (tl (quoted s))) = (c \<in> set s \<and> c \<noteq> CHR 0x22 \<and> c \<noteq> CHR 0x5C)
   \<and> length (quoted s) = length s + 2 + length (filter (\<lambda>c. c = CHR 0x22 \<or> c = CHR 0x5C) s)
   \<and> show_value sd (VString s) = quoted s
   \<and> details_loop sd first ((k, v) # m)
       = (if first then [] else '', '') @ quoted k @ '': '' @ show_value sd v
           @ details_loop sd False m"
  using unquote_body_quoted [of s r] length_quoted [of s] raw_in_body [of c s]
  by (simp add: unquote_def) (simp add: quoted_def)

text \<open>The string \<open>a"\<close>, backslash, newline.\<close>

theorem quoted_escapes_quote_and_backslash_witness:
  "quoted [CHR ''a'', CHR 0x22, CHR 0x5C, CHR 0x0A]
     = [CHR 0x22, CHR ''a'', CHR 0x5C, CHR 0x22, CHR 0x5C, CHR 0x5C, CHR 0x0A, CHR 0x22]
   \<and> unquote (quoted [CHR ''a'', CHR 0x22, CHR 0x5C, CHR 0x0A] @ '': 1 }'')
       = Some ([CHR ''a'', CHR 0x22, CHR 0x5C, CHR 0x0A], '': 1 }'')
   \<and> \<not> raw_in (CHR 0x22) (butlast (tl (quoted [CHR ''a'', CHR 0x22, CHR 0x5C, CHR 0x0A])))
   \<and> raw_in (CHR 0x0A) (butlast (tl (quoted [CHR ''a'', CHR 0x22, CHR 0x5C, CHR 0x0A])))"
proof -
  let ?s = "[CHR ''a'', CHR 0x22, CHR 0x5C, CHR 0x0A]"
  have q: "quoted ?s
     = [CHR 0x22, CHR ''a'', CHR 0x5C, CHR 0x22, CHR 0x5C, CHR 0x5C, CHR 0x0A, CHR 0x22]"
    by (simp add: quoted_def quoted_char_def)
  have u: "unquote (quoted ?s @ '': 1 }'') = Some (?s, '': 1 }'')"
    by (rule quoted_escapes_quote_and_backslash
          [of ?s "'': 1 }''", THEN conjunct2, THEN conjunct2, THEN conjunct1])
  have r1: "raw_in (CHR 0x22) (butlast (tl (quoted ?s)))
              = (CHR 0x22 \<in> set ?s \<and> CHR 0x22 \<noteq> CHR 0x22 \<and> CHR 0x22 \<noteq> CHR 0x5C)"
    by (rule quoted_escapes_quote_and_backslash
          [of ?s _ "CHR 0x22", THEN conjunct2, THEN conjunct2, THEN conjunct2, THEN conjunct1])
  have r2: "raw_in (CHR 0x0A) (butlast (tl (quoted ?s)))
              = (CHR 0x0A \<in> set ?s \<and> CHR 0x0A \<noteq> CHR 0x22 \<and> CHR 0x0A \<noteq> CHR 0x5C)"
    by (rule quoted_escapes_quote_and_backslash
          [of ?s _ "CHR 0x0A", THEN conjunct2, THEN conjunct2, THEN conjunct2, THEN conjunct1])
  from r1 have n1: "\<not> raw_in (CHR 0x22) (butlast (tl (quoted ?s)))" by simp
  from r2 have n2: "raw_in (CHR 0x0A) (butlast (tl (quoted ?s)))" by simp
  from q u n1 n2 show ?thesis by (intro conjI)
qed

text \<open>
  The claim as worded fails: the newline, a control character, of the string value
  \<open>"\n"\<close> is written between the quotes as it is, with no escape character before it.
\<close>

theorem control_char_unescaped_counterexample:
  "control_char (CHR 0x0A)
   \<and> show_value show_int (VString [CHR 0x0A]) = [CHR 0x22, CHR 0x0A, CHR 0x22]
   \<and> raw_in (CHR 0x0A) (butlast (tl (show_value show_int (VString [CHR 0x0A]))))"
  by (simp add: control_char_def quoted_def quoted_char_def)

end
